theory Spec2Isabelle
  imports Main "HOL-Library.AList"
begin

section \<open>JavaScript strings and arrays\<close>

text \<open>
  Strings are lists of 8-bit characters, read as ASCII. \<open>toLowerCase\<close> maps the
  capitals to their small letters and leaves every other character as it is.
\<close>

definition lowerChar :: "char \<Rightarrow> char" where
  "lowerChar c =
     (case map_of (zip ''ABCDEFGHIJKLMNOPQRSTUVWXYZ'' ''abcdefghijklmnopqrstuvwxyz'') c of
        Some d \<Rightarrow> d
      | None \<Rightarrow> c)"

definition toLowerCase :: "string \<Rightarrow> string" where
  "toLowerCase s = map lowerChar s"

text \<open>\<open>s.startsWith(p)\<close>\<close>

fun startsWith :: "string \<Rightarrow> string \<Rightarrow> bool" where
  "startsWith s [] = True"
| "startsWith [] (p # ps) = False"
| "startsWith (c # cs) (p # ps) = (c = p \<and> startsWith cs ps)"

text \<open>\<open>s.includes(sub)\<close> on strings: \<open>sub\<close> occurs in \<open>s\<close> as a contiguous run.\<close>

fun str_includes :: "string \<Rightarrow> string \<Rightarrow> bool" where
  "str_includes [] sub = (sub = [])"
| "str_includes (c # cs) sub = (startsWith (c # cs) sub \<or> str_includes cs sub)"

text \<open>
  \<open>s.split(sep)\<close> for a one-character separator: the pieces between the separators,
  empty pieces kept; the empty string gives one empty piece.
\<close>

fun splitOn :: "char \<Rightarrow> string \<Rightarrow> string list" where
  "splitOn sep [] = [[]]"
| "splitOn sep (c # cs) =
     (if c = sep then [] # splitOn sep cs
      else (case splitOn sep cs of
              [] \<Rightarrow> [[c]]
            | w # ws \<Rightarrow> (c # w) # ws))"

text \<open>\<open>parts.join(sep)\<close>\<close>

fun joinWith :: "string \<Rightarrow> string list \<Rightarrow> string" where
  "joinWith sep [] = []"
| "joinWith sep [w] = w"
| "joinWith sep (w # v # ws) = w @ sep @ joinWith sep (v # ws)"

section \<open>The two shape patterns\<close>

text \<open>
  The patterns the parser tests are sequences of character classes, each taken once,
  one or more times (\<open>+\<close>) or any number of times (\<open>*\<close>), anchored at both ends.
  \<open>regex_test\<close> is \<open>RegExp.prototype.test\<close> for such a pattern.
\<close>

datatype RegexItem = Once "char \<Rightarrow> bool" | Star "char \<Rightarrow> bool" | Plus "char \<Rightarrow> bool"

fun regex_test :: "RegexItem list \<Rightarrow> string \<Rightarrow> bool" where
  "regex_test [] s = (s = [])"
| "regex_test (Once P # r) [] = False"
| "regex_test (Once P # r) (c # cs) = (P c \<and> regex_test r cs)"
| "regex_test (Star P # r) [] = regex_test r []"
| "regex_test (Star P # r) (c # cs) =
     (regex_test r (c # cs) \<or> (P c \<and> regex_test (Star P # r) cs))"
| "regex_test (Plus P # r) [] = False"
| "regex_test (Plus P # r) (c # cs) = (P c \<and> regex_test (Star P # r) cs)"

text \<open>The dot of a JavaScript pattern matches every character but a line terminator.\<close>

definition lineTerminator :: "char \<Rightarrow> bool" where
  "lineTerminator c = (c = CHR 0x0A \<or> c = CHR 0x0D)"

definition dot :: "char \<Rightarrow> bool" where
  "dot c = (\<not> lineTerminator c)"

text \<open>\<open>/^[^-]+.*-.*[^-]+$/\<close>\<close>

definition chainedShortcutRegex :: "RegexItem list" where
  "chainedShortcutRegex =
     [Plus (\<lambda>c. c \<noteq> CHR ''-''), Star dot, Once (\<lambda>c. c = CHR ''-''), Star dot,
      Plus (\<lambda>c. c \<noteq> CHR ''-'')]"

text \<open>\<open>/^[^_]+.*_.*[^_]+$/\<close>\<close>

definition combinedShortcutRegex :: "RegexItem list" where
  "combinedShortcutRegex =
     [Plus (\<lambda>c. c \<noteq> CHR ''_''), Star dot, Once (\<lambda>c. c = CHR ''_''), Star dot,
      Plus (\<lambda>c. c \<noteq> CHR ''_'')]"

section \<open>Parsed shortcuts\<close>

text \<open>
  A key together with the four modifier flags. The parser's \<open>base\<close> object has exactly
  these fields, a keyboard event carries them, and a \<open>Shortcut\<close> adds the handler and
  the grammar to them.
\<close>

record KeyCombo =
  key :: string
  ctrlKey :: bool
  metaKey :: bool
  shiftKey :: bool
  altKey :: bool

record 'h Shortcut = KeyCombo +
  handler :: 'h
  chained :: bool

definition modifierTokens :: "string list" where
  "modifierTokens = [''meta'', ''command'', ''ctrl'', ''shift'', ''alt'', ''option'']"

text \<open>The \<open>base\<close> object of \<open>parseShortcut\<close>, before the platform step.\<close>

definition parseBase :: "string \<Rightarrow> bool \<Rightarrow> KeyCombo" where
  "parseBase k isChained =
     (if isChained
      then \<lparr>key = k, ctrlKey = False, metaKey = False, shiftKey = False, altKey = False\<rparr>
      else (let p = splitOn CHR ''_'' k
            in \<lparr>key = joinWith ''_'' (filter (\<lambda>x. x \<notin> set modifierTokens) p),
                ctrlKey = (''ctrl'' \<in> set p),
                metaKey = (''meta'' \<in> set p \<or> ''command'' \<in> set p),
                shiftKey = (''shift'' \<in> set p),
                altKey = (''alt'' \<in> set p \<or> ''option'' \<in> set p)\<rparr>))"

definition parseShortcut :: "string \<Rightarrow> 'h \<Rightarrow> bool \<Rightarrow> 'h Shortcut option" where
  "parseShortcut spec h macOS =
     (let k = toLowerCase spec;
          isChained = (str_includes k ''-'' \<and> \<not> str_includes k ''_'');
          isCombined = str_includes k ''_''
      in if isChained \<and> \<not> regex_test chainedShortcutRegex k then None
         else if isCombined \<and> \<not> regex_test combinedShortcutRegex k then None
         else (let base = parseBase k isChained;
                   base' = (if \<not> macOS \<and> metaKey base \<and> \<not> ctrlKey base
                            then base\<lparr>metaKey := False, ctrlKey := True\<rparr>
                            else base)
               in Some \<lparr>key = key base', ctrlKey = ctrlKey base', metaKey = metaKey base',
                        shiftKey = shiftKey base', altKey = altKey base',
                        handler = h, chained = isChained\<rparr>))"

text \<open>
  The active set: the entries of the configuration object, in the order
  \<open>Object.entries\<close> gives them, each parsed; an entry the parser rejects adds nothing.
\<close>

definition shortcutsOf :: "(string \<times> 'h) list \<Rightarrow> bool \<Rightarrow> 'h Shortcut list" where
  "shortcutsOf config macOS =
     foldl (\<lambda>acc (k, h). case parseShortcut k h macOS of
                            Some s \<Rightarrow> acc @ [s]
                          | None \<Rightarrow> acc) [] config"

section \<open>The typing guard\<close>

text \<open>The focused element, as far as the guard reads it; \<open>None\<close> when nothing has focus.\<close>

record Element =
  tagName :: string
  isContentEditable :: bool

record Options =
  chainDelay :: nat
  disableOnInputs :: bool

definition defaultOptions :: Options where
  "defaultOptions = \<lparr>chainDelay = 800, disableOnInputs = True\<rparr>"

definition isTyping :: "Options \<Rightarrow> Element option \<Rightarrow> bool" where
  "isTyping opts activeElement =
     (if \<not> disableOnInputs opts then False
      else (case activeElement of
              None \<Rightarrow> False
            | Some el \<Rightarrow>
                (let tag = toLowerCase (tagName el)
                 in tag = ''input'' \<or> tag = ''textarea'' \<or> isContentEditable el)))"

section \<open>The two matchers\<close>

record KeyboardEvent = KeyCombo +
  eventType :: string

definition matchChained :: "'h Shortcut list \<Rightarrow> string list \<Rightarrow> string \<Rightarrow> 'h option" where
  "matchChained shortcuts hist k =
     (if hist \<noteq> []
      then map_option handler
             (find (\<lambda>s. chained s \<and> key s = last hist @ ''-'' @ k) shortcuts)
      else None)"

definition matchCombined :: "'h Shortcut list \<Rightarrow> KeyboardEvent \<Rightarrow> 'h option" where
  "matchCombined shortcuts e =
     map_option handler
       (find (\<lambda>s. \<not> chained s
                 \<and> key s = toLowerCase (key e)
                 \<and> ctrlKey s = ctrlKey e
                 \<and> metaKey s = metaKey e
                 \<and> shiftKey s = shiftKey e
                 \<and> altKey s = altKey e) shortcuts)"

section \<open>The dispatcher\<close>

text \<open>
  The mutable state of one \<open>defineShortcuts\<close> call: the chain history and the pending
  debounce timer, kept as the time at which it fires.

  Modelled from the spec: the debounce timer. \<open>useDebounceFn\<close> comes from a library
  that is not part of the sources; the spec describes it as a timer that every
  qualifying keystroke restarts with the configured duration and whose expiry clears
  the history with no handler invoked. Time is a count of time-units. A timer whose
  time has come fires before a key event of the same instant is handled.
\<close>

record DispatcherState =
  history :: "string list"
  timer :: "nat option"

definition initialState :: DispatcherState where
  "initialState = \<lparr>history = [], timer = None\<rparr>"

definition resetHistory :: "DispatcherState \<Rightarrow> DispatcherState" where
  "resetHistory st = st\<lparr>history := []\<rparr>"

definition debouncedReset :: "Options \<Rightarrow> nat \<Rightarrow> DispatcherState \<Rightarrow> DispatcherState" where
  "debouncedReset opts now st = st\<lparr>timer := Some (now + chainDelay opts)\<rparr>"

definition timerExpiry :: "nat \<Rightarrow> DispatcherState \<Rightarrow> DispatcherState" where
  "timerExpiry now st =
     (case timer st of
        None \<Rightarrow> st
      | Some due \<Rightarrow> if due \<le> now then resetHistory (st\<lparr>timer := None\<rparr>) else st)"

text \<open>
  Both listeners return the handlers they invoked, in order, and the new state.
  \<open>onEventFired\<close> is the callback given to \<open>useMagicKeys\<close>, which calls it for every
  key event, \<open>keydown\<close> and \<open>keyup\<close>.
\<close>

definition onEventFired ::
  "Options \<Rightarrow> 'h Shortcut list \<Rightarrow> Element option \<Rightarrow> KeyboardEvent \<Rightarrow> DispatcherState
     \<Rightarrow> 'h list \<times> DispatcherState" where
  "onEventFired opts shortcuts activeElement e st =
     (if isTyping opts activeElement \<or> eventType e \<noteq> ''keydown'' then ([], st)
      else (let k = toLowerCase (key e);
                hasChainedShortcut = list_ex (\<lambda>s. chained s \<and> str_includes (key s) k) shortcuts
            in if hasChainedShortcut then ([], st)
               else (case matchCombined shortcuts e of
                       Some combinedHandler \<Rightarrow> ([combinedHandler], resetHistory st)
                     | None \<Rightarrow> ([], st))))"

definition onKeyDown ::
  "Options \<Rightarrow> 'h Shortcut list \<Rightarrow> Element option \<Rightarrow> nat \<Rightarrow> KeyboardEvent \<Rightarrow> DispatcherState
     \<Rightarrow> 'h list \<times> DispatcherState" where
  "onKeyDown opts shortcuts activeElement now e st =
     (if key e = [] then ([], st)
      else if isTyping opts activeElement then ([], st)
      else (let k = toLowerCase (key e)
            in case matchChained shortcuts (history st) k of
                 Some chainedHandler \<Rightarrow> ([chainedHandler], resetHistory st)
               | None \<Rightarrow>
                   (let hasChainedShortcut =
                          list_ex (\<lambda>s. chained s
                                     \<and> (startsWith (key s) k \<or> str_includes (key s) (''-'' @ k)))
                            shortcuts
                    in if hasChainedShortcut
                       then ([], debouncedReset opts now (st\<lparr>history := history st @ [k]\<rparr>))
                       else ([], st))))"

text \<open>
  One key event arriving at time \<open>now\<close> while \<open>activeElement\<close> has the focus. A timer
  that is due fires first. Then the listeners run in the order they were registered:
  that of \<open>useMagicKeys\<close>, then, for a \<open>keydown\<close> event only, \<open>onKeyDown\<close>.
\<close>

definition dispatchEvent ::
  "Options \<Rightarrow> 'h Shortcut list \<Rightarrow> nat \<Rightarrow> Element option \<Rightarrow> KeyboardEvent \<Rightarrow> DispatcherState
     \<Rightarrow> 'h list \<times> DispatcherState" where
  "dispatchEvent opts shortcuts now activeElement e st =
     (let st0 = timerExpiry now st;
          (fired1, st1) = onEventFired opts shortcuts activeElement e st0;
          (fired2, st2) = (if eventType e = ''keydown''
                           then onKeyDown opts shortcuts activeElement now e st1
                           else ([], st1))
      in (fired1 @ fired2, st2))"

text \<open>A run of timed events: what each event invoked, and the final state.\<close>

fun run ::
  "Options \<Rightarrow> 'h Shortcut list \<Rightarrow> (nat \<times> Element option \<times> KeyboardEvent) list
     \<Rightarrow> DispatcherState \<Rightarrow> 'h list list \<times> DispatcherState" where
  "run opts shortcuts [] st = ([], st)"
| "run opts shortcuts ((now, activeElement, e) # evs) st =
     (let (fired, st') = dispatchEvent opts shortcuts now activeElement e st;
          (rest, st'') = run opts shortcuts evs st'
      in (fired # rest, st''))"

text \<open>A \<open>keydown\<close> of one key with no modifier held.\<close>

definition keydown :: "string \<Rightarrow> KeyboardEvent" where
  "keydown k = \<lparr>key = k, ctrlKey = False, metaKey = False, shiftKey = False,
                altKey = False, eventType = ''keydown''\<rparr>"

section \<open>The shortcut registry\<close>

text \<open>
  A JavaScript \<open>Map\<close> is kept as the list of its entries in insertion order;
  \<open>set\<close> replaces the value of a key that is present where it stands and appends a
  new key (\<open>AList.update\<close>), \<open>delete\<close> removes the entry (\<open>AList.delete\<close>) and
  \<open>get\<close> is \<open>map_of\<close>.
\<close>

record 'h Registration =
  reg_component :: string
  reg_handler :: 'h
  reg_location :: string

type_synonym 'h ShortcutRegistry = "(string \<times> 'h Registration) list"

text \<open>The warning \<open>register\<close> prints: the shortcut, who holds it and who asks for it.\<close>

datatype Warning = ShortcutConflict string string string string string

definition register ::
  "string \<Rightarrow> 'h \<Rightarrow> string \<Rightarrow> string \<Rightarrow> 'h ShortcutRegistry
     \<Rightarrow> Warning list \<times> 'h ShortcutRegistry" where
  "register shortcut h componentName location registered =
     (let warned = (case map_of registered shortcut of
                      Some existing \<Rightarrow>
                        [ShortcutConflict shortcut (reg_component existing)
                           (reg_location existing) componentName location]
                    | None \<Rightarrow> [])
      in (warned,
          AList.update shortcut
            \<lparr>reg_component = componentName, reg_handler = h, reg_location = location\<rparr>
            registered))"

definition unregister :: "string \<Rightarrow> 'h ShortcutRegistry \<Rightarrow> 'h ShortcutRegistry" where
  "unregister shortcut registered = AList.delete shortcut registered"

definition getRegisteredShortcuts :: "'h ShortcutRegistry \<Rightarrow> string list" where
  "getRegisteredShortcuts registered = map fst registered"

definition isRegistered :: "string \<Rightarrow> 'h ShortcutRegistry \<Rightarrow> bool" where
  "isRegistered shortcut registered = (map_of registered shortcut \<noteq> None)"

definition getRegistration :: "string \<Rightarrow> 'h ShortcutRegistry \<Rightarrow> 'h Registration option" where
  "getRegistration shortcut registered = map_of registered shortcut"

text \<open>The calls made on a registry, and the registry a sequence of calls leaves.\<close>

datatype 'h RegistryCall = Register string 'h string string | Unregister string

fun registryCall :: "'h RegistryCall \<Rightarrow> 'h ShortcutRegistry \<Rightarrow> 'h ShortcutRegistry" where
  "registryCall (Register shortcut h componentName location) registered =
     snd (register shortcut h componentName location registered)"
| "registryCall (Unregister shortcut) registered = unregister shortcut registered"

definition registryAfter :: "'h RegistryCall list \<Rightarrow> 'h ShortcutRegistry" where
  "registryAfter calls = fold registryCall calls []"

section \<open>The hotkey conflict detector\<close>

record Registrant =
  scope :: string
  component :: string

type_synonym RegisteredKeys = "(string \<times> Registrant) list"

definition detectorRegister :: "string \<Rightarrow> string \<Rightarrow> string \<Rightarrow> RegisteredKeys \<Rightarrow> RegisteredKeys" where
  "detectorRegister k sc owner registeredKeys =
     AList.update k \<lparr>scope = sc, component = owner\<rparr> registeredKeys"

definition detectorUnregister :: "string \<Rightarrow> RegisteredKeys \<Rightarrow> RegisteredKeys" where
  "detectorUnregister k registeredKeys = AList.delete k registeredKeys"

text \<open>The body of the first \<open>forEach\<close> of \<open>getConflicts\<close>: one entry joins its key's group.\<close>

definition groupEntry ::
  "(string \<times> Registrant list) list \<Rightarrow> string \<times> Registrant \<Rightarrow> (string \<times> Registrant list) list" where
  "groupEntry keyGroups entry =
     (case entry of (k, r) \<Rightarrow>
        (let keyGroups1 = (if map_of keyGroups k = None then AList.update k [] keyGroups
                           else keyGroups)
         in case map_of keyGroups1 k of
              Some components \<Rightarrow> AList.update k (components @ [r]) keyGroups1
            | None \<Rightarrow> keyGroups1))"

text \<open>The body of the second \<open>forEach\<close>: a group of more than one is a conflict.\<close>

definition conflictEntry ::
  "(string \<times> Registrant list) list \<Rightarrow> string \<times> Registrant list \<Rightarrow> (string \<times> Registrant list) list" where
  "conflictEntry conflicts entry =
     (case entry of (k, components) \<Rightarrow>
        if length components > 1 then AList.update k components conflicts else conflicts)"

text \<open>The object \<open>getConflicts\<close> returns is kept as the list of its entries.\<close>

definition getConflicts :: "RegisteredKeys \<Rightarrow> (string \<times> Registrant list) list" where
  "getConflicts registeredKeys =
     (let keyGroups = foldl groupEntry [] registeredKeys
      in foldl conflictEntry [] keyGroups)"

datatype DetectorCall = DRegister string string string | DUnregister string

fun detectorCall :: "DetectorCall \<Rightarrow> RegisteredKeys \<Rightarrow> RegisteredKeys" where
  "detectorCall (DRegister k sc owner) registeredKeys = detectorRegister k sc owner registeredKeys"
| "detectorCall (DUnregister k) registeredKeys = detectorUnregister k registeredKeys"

definition detectorAfter :: "DetectorCall list \<Rightarrow> RegisteredKeys" where
  "detectorAfter calls = fold detectorCall calls []"

section \<open>The shape the specification gives a chained spec\<close>

text \<open>
  In the words of the specification: exactly two non-empty segments joined by one
  hyphen. This predicate is not part of the program; the parser's pattern is compared
  with it.
\<close>

definition twoSegments :: "string \<Rightarrow> bool" where
  "twoSegments k =
     (case splitOn CHR ''-'' k of
        [a, b] \<Rightarrow> a \<noteq> [] \<and> b \<noteq> []
      | _ \<Rightarrow> False)"

section \<open>Facts about strings and the shape patterns\<close>

lemma lowerChar_hyphen: "lowerChar c = CHR ''-'' \<longleftrightarrow> c = CHR ''-''"
  by (simp add: lowerChar_def)

lemma lowerChar_underscore: "lowerChar c = CHR ''_'' \<longleftrightarrow> c = CHR ''_''"
  by (simp add: lowerChar_def)

lemma toLowerCase_hyphen: "CHR ''-'' \<in> set (toLowerCase s) \<longleftrightarrow> CHR ''-'' \<in> set s"
proof -
  have "CHR ''-'' = lowerChar c \<longleftrightarrow> c = CHR ''-''" for c
    using lowerChar_hyphen[of c] by auto
  then show ?thesis by (auto simp: toLowerCase_def image_iff)
qed

lemma toLowerCase_underscore: "CHR ''_'' \<in> set (toLowerCase s) \<longleftrightarrow> CHR ''_'' \<in> set s"
proof -
  have "CHR ''_'' = lowerChar c \<longleftrightarrow> c = CHR ''_''" for c
    using lowerChar_underscore[of c] by auto
  then show ?thesis by (auto simp: toLowerCase_def image_iff)
qed

lemma toLowerCase_Nil: "toLowerCase s = [] \<longleftrightarrow> s = []"
  by (simp add: toLowerCase_def)

lemma startsWith_iff: "startsWith s p \<longleftrightarrow> (\<exists>r. s = p @ r)"
  by (induction s p rule: startsWith.induct) auto

lemma str_includes_iff: "str_includes s sub \<longleftrightarrow> (\<exists>u v. s = u @ sub @ v)"
proof (induction s)
  case Nil
  then show ?case by auto
next
  case (Cons c cs)
  show ?case
  proof
    assume "str_includes (c # cs) sub"
    then consider "startsWith (c # cs) sub" | "str_includes cs sub" by auto
    then show "\<exists>u v. c # cs = u @ sub @ v"
    proof cases
      case 1
      then obtain r where "c # cs = sub @ r" by (auto simp: startsWith_iff)
      then have "c # cs = [] @ sub @ r" by simp
      then show ?thesis by blast
    next
      case 2
      then obtain u v where "cs = u @ sub @ v" using Cons.IH by blast
      then have "c # cs = (c # u) @ sub @ v" by simp
      then show ?thesis by blast
    qed
  next
    assume "\<exists>u v. c # cs = u @ sub @ v"
    then obtain u v where uv: "c # cs = u @ sub @ v" by blast
    show "str_includes (c # cs) sub"
    proof (cases u)
      case Nil
      with uv have "startsWith (c # cs) sub" by (auto simp: startsWith_iff)
      then show ?thesis by simp
    next
      case (Cons d u')
      with uv have "cs = u' @ sub @ v" by simp
      then have "str_includes cs sub" using Cons.IH by blast
      then show ?thesis by simp
    qed
  qed
qed

lemma str_includes_char: "str_includes s [c] \<longleftrightarrow> c \<in> set s"
  by (induction s) (auto simp: startsWith_iff)

lemma splitOn_absent: "sep \<notin> set s \<Longrightarrow> splitOn sep s = [s]"
  by (induction s) auto

lemma regex_test_Star:
  "regex_test (Star P # r) s \<longleftrightarrow> (\<exists>u v. s = u @ v \<and> (\<forall>c\<in>set u. P c) \<and> regex_test r v)"
proof (induction s)
  case Nil
  then show ?case by simp
next
  case (Cons c cs)
  show ?case
  proof
    assume "regex_test (Star P # r) (c # cs)"
    then consider "regex_test r (c # cs)" | "P c" "regex_test (Star P # r) cs" by auto
    then show "\<exists>u v. c # cs = u @ v \<and> (\<forall>c\<in>set u. P c) \<and> regex_test r v"
    proof cases
      case 1
      then have "c # cs = [] @ (c # cs) \<and> (\<forall>c\<in>set []. P c) \<and> regex_test r (c # cs)" by simp
      then show ?thesis by blast
    next
      case 2
      then obtain u v where "cs = u @ v" "\<forall>c\<in>set u. P c" "regex_test r v"
        using Cons.IH by blast
      with 2 have "c # cs = (c # u) @ v \<and> (\<forall>c\<in>set (c # u). P c) \<and> regex_test r v" by simp
      then show ?thesis by blast
    qed
  next
    assume "\<exists>u v. c # cs = u @ v \<and> (\<forall>c\<in>set u. P c) \<and> regex_test r v"
    then obtain u v where uv: "c # cs = u @ v" "\<forall>c\<in>set u. P c" "regex_test r v" by blast
    show "regex_test (Star P # r) (c # cs)"
    proof (cases u)
      case Nil
      with uv have "regex_test r (c # cs)" by simp
      then show ?thesis by simp
    next
      case (Cons d u')
      with uv have "cs = u' @ v" "\<forall>c\<in>set u'. P c" "P c" by auto
      then have "regex_test (Star P # r) cs" using Cons.IH uv(3) by blast
      with \<open>P c\<close> show ?thesis by simp
    qed
  qed
qed

lemma regex_test_Plus:
  "regex_test (Plus P # r) s \<longleftrightarrow>
     (\<exists>u v. s = u @ v \<and> u \<noteq> [] \<and> (\<forall>c\<in>set u. P c) \<and> regex_test r v)"
proof (cases s)
  case Nil
  then show ?thesis by simp
next
  case (Cons c cs)
  show ?thesis
  proof
    assume "regex_test (Plus P # r) s"
    with Cons have "P c" "regex_test (Star P # r) cs" by auto
    then obtain u v where "cs = u @ v" "\<forall>c\<in>set u. P c" "regex_test r v"
      by (auto simp: regex_test_Star)
    with \<open>P c\<close> Cons have "s = (c # u) @ v \<and> c # u \<noteq> [] \<and> (\<forall>c\<in>set (c # u). P c) \<and> regex_test r v"
      by simp
    then show "\<exists>u v. s = u @ v \<and> u \<noteq> [] \<and> (\<forall>c\<in>set u. P c) \<and> regex_test r v" by blast
  next
    assume "\<exists>u v. s = u @ v \<and> u \<noteq> [] \<and> (\<forall>c\<in>set u. P c) \<and> regex_test r v"
    then obtain u v where uv: "s = u @ v" "u \<noteq> []" "\<forall>c\<in>set u. P c" "regex_test r v" by blast
    then obtain d u' where u: "u = d # u'" by (cases u) auto
    with uv Cons have "c = d" "cs = u' @ v" "P c" "\<forall>c\<in>set u'. P c" by auto
    then have "regex_test (Star P # r) cs" using uv(4) regex_test_Star by blast
    with \<open>P c\<close> Cons show "regex_test (Plus P # r) s" by simp
  qed
qed

lemma regex_test_Once:
  "regex_test (Once P # r) s \<longleftrightarrow> (\<exists>c v. s = c # v \<and> P c \<and> regex_test r v)"
  by (cases s) auto

text \<open>What the pattern with separator \<open>sep\<close> accepts.\<close>

lemma regex_shape:
  "regex_test [Plus (\<lambda>c. c \<noteq> sep), Star dot, Once (\<lambda>c. c = sep), Star dot, Plus (\<lambda>c. c \<noteq> sep)] k
   \<longleftrightarrow> (\<exists>x y z w. k = x @ y @ [sep] @ z @ w \<and> x \<noteq> [] \<and> sep \<notin> set x \<and> w \<noteq> [] \<and> sep \<notin> set w
          \<and> (\<forall>c\<in>set (y @ z). \<not> lineTerminator c))"
  (is "?L \<longleftrightarrow> ?R")
proof
  assume ?L
  then obtain x r1 where x: "k = x @ r1" "x \<noteq> []" "\<forall>c\<in>set x. c \<noteq> sep"
      and r1: "regex_test [Star dot, Once (\<lambda>c. c = sep), Star dot, Plus (\<lambda>c. c \<noteq> sep)] r1"
    unfolding regex_test_Plus[of _ "[Star dot, Once (\<lambda>c. c = sep), Star dot, Plus (\<lambda>c. c \<noteq> sep)]"]
    by blast
  from r1 obtain y r2 where y: "r1 = y @ r2" "\<forall>c\<in>set y. dot c"
      and r2: "regex_test [Once (\<lambda>c. c = sep), Star dot, Plus (\<lambda>c. c \<noteq> sep)] r2"
    unfolding regex_test_Star[of _ "[Once (\<lambda>c. c = sep), Star dot, Plus (\<lambda>c. c \<noteq> sep)]"]
    by blast
  from r2 obtain r3 where r3: "r2 = sep # r3" "regex_test [Star dot, Plus (\<lambda>c. c \<noteq> sep)] r3"
    unfolding regex_test_Once by blast
  from r3(2) obtain z r4 where z: "r3 = z @ r4" "\<forall>c\<in>set z. dot c"
      and r4: "regex_test [Plus (\<lambda>c. c \<noteq> sep)] r4"
    unfolding regex_test_Star[of _ "[Plus (\<lambda>c. c \<noteq> sep)]"] by blast
  from r4 obtain w v where w: "r4 = w @ v" "w \<noteq> []" "\<forall>c\<in>set w. c \<noteq> sep" "regex_test [] v"
    unfolding regex_test_Plus by blast
  then have "v = []" by simp
  with x y r3 z w have "k = x @ y @ [sep] @ z @ w" by simp
  moreover have "sep \<notin> set x" "sep \<notin> set w" using x(3) w(3) by auto
  moreover have "\<forall>c\<in>set (y @ z). \<not> lineTerminator c" using y(2) z(2) by (auto simp: dot_def)
  ultimately show ?R using x(2) w(2) by blast
next
  assume ?R
  then obtain x y z w where k: "k = x @ y @ [sep] @ z @ w" and x: "x \<noteq> []" "sep \<notin> set x"
      and w: "w \<noteq> []" "sep \<notin> set w" and yz: "\<forall>c\<in>set (y @ z). \<not> lineTerminator c"
    by blast
  have 5: "regex_test [Plus (\<lambda>c. c \<noteq> sep)] w"
    unfolding regex_test_Plus using w by (intro exI[of _ w] exI[of _ "[]"]) auto
  have 4: "regex_test [Star dot, Plus (\<lambda>c. c \<noteq> sep)] (z @ w)"
    unfolding regex_test_Star[of _ "[Plus (\<lambda>c. c \<noteq> sep)]"]
    using 5 yz by (intro exI[of _ z] exI[of _ w]) (auto simp: dot_def)
  have 3: "regex_test [Once (\<lambda>c. c = sep), Star dot, Plus (\<lambda>c. c \<noteq> sep)] (sep # z @ w)"
    using 4 by simp
  have 2: "regex_test [Star dot, Once (\<lambda>c. c = sep), Star dot, Plus (\<lambda>c. c \<noteq> sep)] (y @ sep # z @ w)"
    unfolding regex_test_Star[of _ "[Once (\<lambda>c. c = sep), Star dot, Plus (\<lambda>c. c \<noteq> sep)]"]
    using 3 yz by (intro exI[of _ y] exI[of _ "sep # z @ w"]) (auto simp: dot_def)
  have "regex_test [Plus (\<lambda>c. c \<noteq> sep), Star dot, Once (\<lambda>c. c = sep), Star dot, Plus (\<lambda>c. c \<noteq> sep)]
          (x @ y @ sep # z @ w)"
    unfolding regex_test_Plus[of _ "[Star dot, Once (\<lambda>c. c = sep), Star dot, Plus (\<lambda>c. c \<noteq> sep)]"]
    using 2 x by (intro exI[of _ x] exI[of _ "y @ sep # z @ w"]) auto
  then show ?L using k by simp
qed

section \<open>Facts about the parser\<close>

lemma splitOn_nonempty: "splitOn sep s \<noteq> []"
  by (induction s) (auto split: list.splits)

lemma splitOn_pieces: "w \<in> set (splitOn sep s) \<Longrightarrow> sep \<notin> set w"
  by (induction s arbitrary: w) (auto split: if_splits list.splits)

lemma splitOn_two:
  "splitOn sep s = [a, b] \<Longrightarrow> s = a @ [sep] @ b"
proof (induction s arbitrary: a)
  case Nil
  then show ?case by simp
next
  case (Cons c cs)
  show ?case
  proof (cases "c = sep")
    case True
    with Cons.prems have a: "a = []" and b: "splitOn sep cs = [b]" by auto
    have "sep \<notin> set b" using splitOn_pieces[of b sep cs] b by simp
    have "cs = b" using b
    proof (induction cs arbitrary: b)
      case Nil
      then show ?case by simp
    next
      case (Cons d ds)
      then show ?case by (auto split: if_splits list.splits simp: splitOn_nonempty)
    qed
    with a True show ?thesis by simp
  next
    case False
    with Cons.prems obtain a' where "splitOn sep cs = [a', b]" "a = c # a'"
      by (auto split: list.splits)
    with Cons.IH show ?thesis by simp
  qed
qed

lemma twoSegments_shape:
  assumes "twoSegments k"
  shows "\<exists>a b. k = a @ ''-'' @ b \<and> a \<noteq> [] \<and> b \<noteq> [] \<and> CHR ''-'' \<notin> set a \<and> CHR ''-'' \<notin> set b"
proof -
  from assms obtain a b where ab: "splitOn CHR ''-'' k = [a, b]" "a \<noteq> []" "b \<noteq> []"
    by (auto simp: twoSegments_def split: list.splits)
  then have "k = a @ ''-'' @ b" using splitOn_two by fastforce
  moreover have "CHR ''-'' \<notin> set a" "CHR ''-'' \<notin> set b"
    using splitOn_pieces[of _ "CHR ''-''" k] ab(1) by auto
  ultimately show ?thesis using ab by blast
qed

lemma chainedShortcutRegex_shape:
  "regex_test chainedShortcutRegex k \<longleftrightarrow>
     (\<exists>x y z w. k = x @ y @ ''-'' @ z @ w \<and> x \<noteq> [] \<and> CHR ''-'' \<notin> set x
        \<and> w \<noteq> [] \<and> CHR ''-'' \<notin> set w \<and> (\<forall>c\<in>set (y @ z). \<not> lineTerminator c))"
  unfolding chainedShortcutRegex_def by (rule regex_shape)

lemma parseShortcut_hyphen_spec:
  assumes "CHR ''-'' \<in> set spec" "CHR ''_'' \<notin> set spec"
  shows "parseShortcut spec h macOS =
           (if regex_test chainedShortcutRegex (toLowerCase spec)
            then Some \<lparr>key = toLowerCase spec, ctrlKey = False, metaKey = False, shiftKey = False,
                       altKey = False, handler = h, chained = True\<rparr>
            else None)"
  using assms
  by (simp add: parseShortcut_def parseBase_def str_includes_char toLowerCase_hyphen
      toLowerCase_underscore)

lemma shortcutsOf_map_filter:
  "shortcutsOf config macOS = List.map_filter (\<lambda>(k, h). parseShortcut k h macOS) config"
proof -
  have "foldl (\<lambda>acc (k, h). case parseShortcut k h macOS of Some s \<Rightarrow> acc @ [s] | None \<Rightarrow> acc)
          acc config
        = acc @ List.map_filter (\<lambda>(k, h). parseShortcut k h macOS) config" for acc
    by (induction config arbitrary: acc) (auto simp: List.map_filter_simps split: option.splits)
  from this[of "[]"] show ?thesis by (simp add: shortcutsOf_def)
qed

lemma shortcutsOf_append:
  "shortcutsOf (c1 @ c2) macOS = shortcutsOf c1 macOS @ shortcutsOf c2 macOS"
  by (simp add: shortcutsOf_map_filter List.map_filter_def)

lemma shortcutsOf_Cons:
  "shortcutsOf ((k, h) # c) macOS =
     (case parseShortcut k h macOS of Some s \<Rightarrow> [s] | None \<Rightarrow> []) @ shortcutsOf c macOS"
  by (simp add: shortcutsOf_map_filter List.map_filter_simps split: option.splits)

lemma parseShortcut_bare:
  assumes "CHR ''-'' \<notin> set spec" "CHR ''_'' \<notin> set spec"
  shows "parseShortcut spec h macOS =
           Some \<lparr>key = toLowerCase spec, ctrlKey = False, metaKey = False, shiftKey = False,
                 altKey = False, handler = h, chained = False\<rparr>
         \<longleftrightarrow> toLowerCase spec \<notin> set modifierTokens"
proof -
  have split: "splitOn CHR ''_'' (toLowerCase spec) = [toLowerCase spec]"
    using assms(2) by (simp add: splitOn_absent toLowerCase_underscore)
  show ?thesis
  proof (cases "toLowerCase spec \<in> set modifierTokens")
    case True
    then have "toLowerCase spec \<noteq> []" by (auto simp: modifierTokens_def)
    with True show ?thesis
      using assms
      by (simp add: parseShortcut_def parseBase_def str_includes_char toLowerCase_hyphen
          toLowerCase_underscore split Let_def)
  next
    case False
    then have "toLowerCase spec \<noteq> ''meta''" "toLowerCase spec \<noteq> ''command''"
      "toLowerCase spec \<noteq> ''ctrl''" "toLowerCase spec \<noteq> ''shift''"
      "toLowerCase spec \<noteq> ''alt''" "toLowerCase spec \<noteq> ''option''"
      by (auto simp: modifierTokens_def)
    with False show ?thesis
      using assms
      by (simp add: parseShortcut_def parseBase_def str_includes_char toLowerCase_hyphen
          toLowerCase_underscore split Let_def)
  qed
qed

section \<open>Facts about the listeners\<close>

lemma matchChained_empty: "matchChained shortcuts [] k = None"
  by (simp add: matchChained_def)

lemma startsWith_includes: "startsWith s k \<Longrightarrow> str_includes s k"
proof -
  assume "startsWith s k"
  then obtain r where "s = [] @ k @ r" by (auto simp: startsWith_iff)
  then show ?thesis unfolding str_includes_iff by blast
qed

lemma includes_suffix: "str_includes s (p @ k) \<Longrightarrow> str_includes s k"
proof -
  assume "str_includes s (p @ k)"
  then obtain u v where "s = u @ (p @ k) @ v" unfolding str_includes_iff by blast
  then have "s = (u @ p) @ k @ v" by simp
  then show ?thesis unfolding str_includes_iff by blast
qed

text \<open>The key of an event \<open>participates\<close> when it occurs in the key of a chained shortcut.\<close>

lemma matchChained_participates:
  assumes "matchChained shortcuts hist k = Some h"
  shows "list_ex (\<lambda>s. chained s \<and> str_includes (key s) k) shortcuts"
proof -
  from assms obtain s where s: "find (\<lambda>s. chained s \<and> key s = last hist @ ''-'' @ k) shortcuts = Some s"
    by (auto simp: matchChained_def split: if_splits)
  then have "s \<in> set shortcuts" "chained s" "key s = (last hist @ ''-'') @ k @ []"
    by (auto simp: find_Some_iff)
  then have "str_includes (key s) k" unfolding str_includes_iff by blast
  with \<open>s \<in> set shortcuts\<close> \<open>chained s\<close> show ?thesis by (auto simp: list_ex_iff)
qed

lemma onKeyDown_not_participating:
  assumes "\<not> list_ex (\<lambda>s. chained s \<and> str_includes (key s) (toLowerCase (key e))) shortcuts"
  shows "onKeyDown opts shortcuts activeElement now e st = ([], st)"
proof -
  have 1: "matchChained shortcuts (history st) (toLowerCase (key e)) = None"
  proof (cases "matchChained shortcuts (history st) (toLowerCase (key e))")
    case None
    then show ?thesis .
  next
    case (Some h)
    from matchChained_participates[OF this] assms show ?thesis by simp
  qed
  have 2: "\<not> list_ex (\<lambda>s. chained s \<and> (startsWith (key s) (toLowerCase (key e))
                \<or> str_includes (key s) (''-'' @ toLowerCase (key e)))) shortcuts"
    using assms startsWith_includes includes_suffix[of _ "''-''"]
    unfolding list_ex_iff by blast
  show ?thesis unfolding onKeyDown_def Let_def using 1 2 by simp
qed

lemma onEventFired_participating:
  assumes "list_ex (\<lambda>s. chained s \<and> str_includes (key s) (toLowerCase (key e))) shortcuts"
  shows "onEventFired opts shortcuts activeElement e st = ([], st)"
  using assms by (simp add: onEventFired_def)

lemma onEventFired_typing:
  "isTyping opts activeElement \<Longrightarrow> onEventFired opts shortcuts activeElement e st = ([], st)"
  by (simp add: onEventFired_def)

lemma onKeyDown_typing:
  "isTyping opts activeElement \<Longrightarrow> onKeyDown opts shortcuts activeElement now e st = ([], st)"
  by (simp add: onKeyDown_def)

lemma dispatchEvent_typing:
  "isTyping opts activeElement \<Longrightarrow>
     dispatchEvent opts shortcuts now activeElement e st = ([], timerExpiry now st)"
  by (simp add: dispatchEvent_def onEventFired_typing onKeyDown_typing Let_def)

lemma dispatchEvent_participating:
  assumes "list_ex (\<lambda>s. chained s \<and> str_includes (key s) (toLowerCase (key e))) shortcuts"
  shows "dispatchEvent opts shortcuts now activeElement e st =
           (if eventType e = ''keydown''
            then onKeyDown opts shortcuts activeElement now e (timerExpiry now st)
            else ([], timerExpiry now st))"
  by (simp add: dispatchEvent_def onEventFired_participating[OF assms])

lemma onKeyDown_fired_chained:
  assumes "h \<in> set (fst (onKeyDown opts shortcuts activeElement now e st))"
  shows "\<exists>s\<in>set shortcuts. chained s \<and> handler s = h"
proof -
  from assms have "matchChained shortcuts (history st) (toLowerCase (key e)) = Some h"
    by (auto simp: onKeyDown_def Let_def split: if_splits option.splits)
  then show ?thesis
    by (auto simp: matchChained_def find_Some_iff split: if_splits)
qed

text \<open>The order of the two listeners makes no difference to an event's outcome.\<close>

lemma listener_order:
  assumes "eventType e = ''keydown''"
  shows "dispatchEvent opts shortcuts now activeElement e st =
           (let st0 = timerExpiry now st;
                (fired2, st1) = onKeyDown opts shortcuts activeElement now e st0;
                (fired1, st2) = onEventFired opts shortcuts activeElement e st1
            in (fired2 @ fired1, st2))"
proof (cases "list_ex (\<lambda>s. chained s \<and> str_includes (key s) (toLowerCase (key e))) shortcuts")
  case True
  show ?thesis
    by (simp add: dispatchEvent_def onEventFired_participating[OF True] assms Let_def
        split: prod.splits)
next
  case False
  show ?thesis
    by (simp add: dispatchEvent_def onKeyDown_not_participating[OF False] assms Let_def
        split: prod.splits)
qed

section \<open>Facts about a two-key sequence\<close>

lemma run_two:
  "fst (run opts shortcuts [(ta, fa, ea), (tb, fb, eb)] st) =
     [fst (dispatchEvent opts shortcuts ta fa ea st),
      fst (dispatchEvent opts shortcuts tb fb eb (snd (dispatchEvent opts shortcuts ta fa ea st)))]"
  by (simp add: split_def Let_def)

lemma toLowerCase_nonempty: "toLowerCase s \<noteq> [] \<Longrightarrow> s \<noteq> []"
  by (auto simp: toLowerCase_def)

lemma history_timerExpiry_empty: "history st = [] \<Longrightarrow> history (timerExpiry now st) = []"
  by (simp add: timerExpiry_def resetHistory_def split: option.splits)

lemma timerExpiry_due:
  "timer st = Some due \<Longrightarrow> due \<le> now \<Longrightarrow> history (timerExpiry now st) = []"
  by (simp add: timerExpiry_def resetHistory_def)

lemma timerExpiry_pending: "timer st = Some due \<Longrightarrow> now < due \<Longrightarrow> timerExpiry now st = st"
  by (simp add: timerExpiry_def)

lemma chained_regex_ends:
  assumes "regex_test chainedShortcutRegex (a @ ''-'' @ b)"
  shows "a \<noteq> [] \<and> b \<noteq> []"
proof -
  from assms obtain x y z w where k: "a @ ''-'' @ b = x @ y @ ''-'' @ z @ w"
      and x: "x \<noteq> []" "CHR ''-'' \<notin> set x" and w: "w \<noteq> []" "CHR ''-'' \<notin> set w"
    unfolding chainedShortcutRegex_shape by blast
  have "a \<noteq> []"
  proof
    assume "a = []"
    with k have "hd (x @ y @ ''-'' @ z @ w) = CHR ''-''" by (metis append_Nil hd_append2 list.sel(1) append_Cons not_Cons_self2)
    with x show False by (cases x) auto
  qed
  moreover have "b \<noteq> []"
  proof
    assume "b = []"
    with k have "last (x @ y @ ''-'' @ z @ w) = CHR ''-''" by (metis append_Nil2 last_appendR last_snoc append_Cons append_Nil not_Cons_self2)
    with w show False by (cases w rule: rev_cases) auto
  qed
  ultimately show ?thesis by simp
qed

lemma shortcutsOf_member:
  "s \<in> set (shortcutsOf config macOS) \<longleftrightarrow> (\<exists>(k, h)\<in>set config. parseShortcut k h macOS = Some s)"
  unfolding shortcutsOf_map_filter List.map_filter_def by force

lemma parseShortcut_chained_valid:
  assumes "parseShortcut spec h macOS = Some s" "chained s"
  shows "regex_test chainedShortcutRegex (key s)"
  using assms
  by (auto simp: parseShortcut_def parseBase_def Let_def split: if_splits)

lemma shortcutsOf_chained_valid:
  assumes "s \<in> set (shortcutsOf config macOS)" "chained s"
  shows "regex_test chainedShortcutRegex (key s)"
proof -
  from assms(1) obtain k h where "parseShortcut k h macOS = Some s"
    unfolding shortcutsOf_member by auto
  then show ?thesis using assms(2) by (rule parseShortcut_chained_valid)
qed

lemma chain_participates:
  assumes "s \<in> set shortcuts" "chained s" "key s = a @ ''-'' @ b"
  shows "list_ex (\<lambda>s. chained s \<and> str_includes (key s) a) shortcuts"
    and "list_ex (\<lambda>s. chained s \<and> str_includes (key s) b) shortcuts"
    and "list_ex (\<lambda>s. chained s \<and> (startsWith (key s) a \<or> str_includes (key s) (''-'' @ a))) shortcuts"
    and "list_ex (\<lambda>s. chained s \<and> (startsWith (key s) b \<or> str_includes (key s) (''-'' @ b))) shortcuts"
proof -
  have 1: "startsWith (key s) a" using assms(3) by (simp add: startsWith_iff)
  have "key s = a @ (''-'' @ b) @ []" using assms(3) by simp
  then have 2: "str_includes (key s) (''-'' @ b)" unfolding str_includes_iff by blast
  from 1 have 3: "str_includes (key s) a" by (rule startsWith_includes)
  from 2 have 4: "str_includes (key s) b" by (rule includes_suffix)
  from 1 2 3 4 assms(1,2)
  show "list_ex (\<lambda>s. chained s \<and> str_includes (key s) a) shortcuts"
    and "list_ex (\<lambda>s. chained s \<and> str_includes (key s) b) shortcuts"
    and "list_ex (\<lambda>s. chained s \<and> (startsWith (key s) a \<or> str_includes (key s) (''-'' @ a))) shortcuts"
    and "list_ex (\<lambda>s. chained s \<and> (startsWith (key s) b \<or> str_includes (key s) (''-'' @ b))) shortcuts"
    unfolding list_ex_iff by blast+
qed

text \<open>The first key of a chain: it completes an earlier chain or joins the history.\<close>

lemma first_key:
  assumes s: "s \<in> set shortcuts" "chained s" "key s = a @ ''-'' @ b"
    and a: "a \<noteq> []" "toLowerCase (key ea) = a" "eventType ea = ''keydown''"
    and focus: "\<not> isTyping opts fa"
  shows "dispatchEvent opts shortcuts ta fa ea st =
           (case matchChained shortcuts (history (timerExpiry ta st)) a of
              Some h \<Rightarrow> ([h], resetHistory (timerExpiry ta st))
            | None \<Rightarrow> ([], debouncedReset opts ta
                            ((timerExpiry ta st)\<lparr>history := history (timerExpiry ta st) @ [a]\<rparr>)))"
proof -
  have p: "list_ex (\<lambda>s. chained s \<and> str_includes (key s) (toLowerCase (key ea))) shortcuts"
    using chain_participates(1)[OF s] a(2) by simp
  have q: "list_ex (\<lambda>s. chained s \<and> (startsWith (key s) a \<or> str_includes (key s) (''-'' @ a))) shortcuts"
    using chain_participates(3)[OF s] .
  have "key ea \<noteq> []" using a(1,2) toLowerCase_nonempty by blast
  then show ?thesis
    unfolding dispatchEvent_participating[OF p]
    using a(2,3) focus q by (simp add: onKeyDown_def split: option.splits)
qed

lemma first_key_history:
  assumes s: "s \<in> set shortcuts" "chained s" "key s = a @ ''-'' @ b"
    and a: "a \<noteq> []" "toLowerCase (key ea) = a" "eventType ea = ''keydown''"
    and focus: "\<not> isTyping opts fa"
  shows "history (snd (dispatchEvent opts shortcuts ta fa ea st)) = []
         \<or> (history (snd (dispatchEvent opts shortcuts ta fa ea st)) \<noteq> []
            \<and> last (history (snd (dispatchEvent opts shortcuts ta fa ea st))) = a
            \<and> timer (snd (dispatchEvent opts shortcuts ta fa ea st)) = Some (ta + chainDelay opts))"
  unfolding first_key[OF s a focus]
  by (simp add: resetHistory_def debouncedReset_def split: option.splits)

lemma second_key_empty_history:
  assumes s: "s \<in> set shortcuts" "chained s" "key s = a @ ''-'' @ b"
    and b: "toLowerCase (key eb) = b"
    and h: "history (timerExpiry tb st1) = []"
  shows "fst (dispatchEvent opts shortcuts tb fb eb st1) = []"
proof -
  have p: "list_ex (\<lambda>s. chained s \<and> str_includes (key s) (toLowerCase (key eb))) shortcuts"
    using chain_participates(2)[OF s] b by simp
  show ?thesis
    unfolding dispatchEvent_participating[OF p]
    using h by (simp add: onKeyDown_def matchChained_empty Let_def)
qed

lemma second_key_fires:
  assumes f: "find (\<lambda>s. chained s \<and> key s = a @ ''-'' @ b) shortcuts = Some s"
    and b: "b \<noteq> []" "toLowerCase (key eb) = b" "eventType eb = ''keydown''"
    and focus: "\<not> isTyping opts fb"
    and h: "history st1 \<noteq> []" "last (history st1) = a" "timerExpiry tb st1 = st1"
  shows "fst (dispatchEvent opts shortcuts tb fb eb st1) = [handler s]"
proof -
  from f have s: "s \<in> set shortcuts" "chained s" "key s = a @ ''-'' @ b"
    by (auto simp: find_Some_iff)
  have p: "list_ex (\<lambda>s. chained s \<and> str_includes (key s) (toLowerCase (key eb))) shortcuts"
    using chain_participates(2)[OF s] b(2) by simp
  have "key eb \<noteq> []" using b(1,2) toLowerCase_nonempty by blast
  moreover have "matchChained shortcuts (history st1) b = Some (handler s)"
    using f h(1,2) by (simp add: matchChained_def)
  ultimately show ?thesis
    unfolding dispatchEvent_participating[OF p]
    using b(2,3) focus h(3) by (simp add: onKeyDown_def)
qed

text \<open>Once the timeout has passed, the second key of a chain invokes nothing.\<close>

lemma after_timeout_silent:
  assumes s: "s \<in> set shortcuts" "chained s" "key s = a @ ''-'' @ b"
    and a: "a \<noteq> []" "toLowerCase (key ea) = a" "eventType ea = ''keydown''"
    and focus: "\<not> isTyping opts fa"
    and b: "toLowerCase (key eb) = b"
    and late: "ta + chainDelay opts < tb"
  shows "fst (dispatchEvent opts shortcuts tb fb eb
                (snd (dispatchEvent opts shortcuts ta fa ea st))) = []"
proof -
  let ?st1 = "snd (dispatchEvent opts shortcuts ta fa ea st)"
  have "history (timerExpiry tb ?st1) = []"
    using first_key_history[OF s a focus, of ta st]
  proof
    assume "history ?st1 = []"
    then show ?thesis by (rule history_timerExpiry_empty)
  next
    assume "history ?st1 \<noteq> [] \<and> last (history ?st1) = a \<and> timer ?st1 = Some (ta + chainDelay opts)"
    then show ?thesis using late timerExpiry_due[of ?st1 "ta + chainDelay opts" tb] by simp
  qed
  then show ?thesis using second_key_empty_history[OF s b] by blast
qed

lemma within_timeout_fires:
  assumes f: "find (\<lambda>s. chained s \<and> key s = a @ ''-'' @ b) shortcuts = Some s"
    and a: "a \<noteq> []" "toLowerCase (key ea) = a" "eventType ea = ''keydown''"
    and b: "b \<noteq> []" "toLowerCase (key eb) = b" "eventType eb = ''keydown''"
    and focus: "\<not> isTyping opts fa" "\<not> isTyping opts fb"
    and idle: "matchChained shortcuts (history (timerExpiry ta st)) a = None"
    and soon: "tb < ta + chainDelay opts"
  shows "fst (run opts shortcuts [(ta, fa, ea), (tb, fb, eb)] st) = [[], [handler s]]"
proof -
  from f have s: "s \<in> set shortcuts" "chained s" "key s = a @ ''-'' @ b"
    by (auto simp: find_Some_iff)
  let ?st1 = "snd (dispatchEvent opts shortcuts ta fa ea st)"
  have d1: "dispatchEvent opts shortcuts ta fa ea st =
              ([], debouncedReset opts ta
                     ((timerExpiry ta st)\<lparr>history := history (timerExpiry ta st) @ [a]\<rparr>))"
    unfolding first_key[OF s a focus(1)] using idle by simp
  then have h: "history ?st1 \<noteq> []" "last (history ?st1) = a"
      and t: "timer ?st1 = Some (ta + chainDelay opts)"
    by (simp_all add: debouncedReset_def)
  have "timerExpiry tb ?st1 = ?st1" using t soon by (rule timerExpiry_pending)
  from second_key_fires[OF f b focus(2) h this] d1 show ?thesis
    unfolding run_two by simp
qed

lemma run_typing:
  assumes "\<forall>(now, activeElement, e)\<in>set evs. isTyping opts activeElement"
  shows "fst (run opts shortcuts evs st) = replicate (length evs) []"
  using assms
proof (induction evs arbitrary: st)
  case Nil
  then show ?case by simp
next
  case (Cons ev evs)
  obtain now activeElement e where ev: "ev = (now, activeElement, e)" by (cases ev)
  with Cons.prems have "isTyping opts activeElement" by simp
  then have "dispatchEvent opts shortcuts now activeElement e st = ([], timerExpiry now st)"
    by (rule dispatchEvent_typing)
  moreover have "fst (run opts shortcuts evs (timerExpiry now st)) = replicate (length evs) []"
    using Cons by simp
  ultimately show ?case by (simp add: ev split_def)
qed

section \<open>Facts about the registry and the conflict detector\<close>

lemma update_fresh: "k \<notin> fst ` set al \<Longrightarrow> AList.update k v al = al @ [(k, v)]"
  by (induction al) auto

lemma groupEntry_fresh:
  assumes "k \<notin> fst ` set keyGroups"
  shows "groupEntry keyGroups (k, r) = keyGroups @ [(k, [r])]"
proof -
  have none: "map_of keyGroups k = None" using assms by (simp add: map_of_eq_None_iff)
  have "groupEntry keyGroups (k, r) = AList.update k [r] (AList.update k [] keyGroups)"
    using none by (simp add: groupEntry_def update_conv')
  also have "\<dots> = AList.update k [r] keyGroups" by simp
  also have "\<dots> = keyGroups @ [(k, [r])]" using assms by (rule update_fresh)
  finally show ?thesis .
qed

lemma keyGroups_distinct:
  assumes "distinct (map fst keyGroups @ map fst registeredKeys)"
  shows "foldl groupEntry keyGroups registeredKeys =
           keyGroups @ map (\<lambda>(k, r). (k, [r])) registeredKeys"
  using assms
proof (induction registeredKeys arbitrary: keyGroups)
  case Nil
  then show ?case by simp
next
  case (Cons entry registeredKeys)
  obtain k r where entry: "entry = (k, r)" by (cases entry)
  from Cons.prems entry have fresh: "k \<notin> fst ` set keyGroups" by auto
  have "distinct (map fst (keyGroups @ [(k, [r])]) @ map fst registeredKeys)"
    using Cons.prems entry by auto
  from Cons.IH[OF this] show ?case
    by (simp add: entry groupEntry_fresh[OF fresh])
qed

lemma singletons_no_conflict:
  "foldl conflictEntry conflicts (map (\<lambda>(k, r). (k, [r])) registeredKeys) = conflicts"
  by (induction registeredKeys arbitrary: conflicts) (auto simp: conflictEntry_def)

lemma getConflicts_distinct:
  assumes "distinct (map fst registeredKeys)"
  shows "getConflicts registeredKeys = []"
  using keyGroups_distinct[of "[]" registeredKeys] assms
  by (simp add: getConflicts_def singletons_no_conflict)

lemma detectorCall_distinct:
  "distinct (map fst registeredKeys) \<Longrightarrow> distinct (map fst (detectorCall c registeredKeys))"
  by (cases c) (simp_all add: detectorRegister_def detectorUnregister_def distinct_update distinct_delete)

lemma fold_detectorCall_distinct:
  "distinct (map fst registeredKeys) \<Longrightarrow> distinct (map fst (fold detectorCall calls registeredKeys))"
  by (induction calls arbitrary: registeredKeys) (simp_all add: detectorCall_distinct)

lemma detectorAfter_distinct: "distinct (map fst (detectorAfter calls))"
  unfolding detectorAfter_def by (rule fold_detectorCall_distinct) simp

lemma registryCall_distinct:
  "distinct (map fst registered) \<Longrightarrow> distinct (map fst (registryCall c registered))"
  by (cases c) (simp_all add: register_def unregister_def distinct_update distinct_delete)

lemma fold_registryCall_distinct:
  "distinct (map fst registered) \<Longrightarrow> distinct (map fst (fold registryCall calls registered))"
  by (induction calls arbitrary: registered) (simp_all add: registryCall_distinct)

lemma registryAfter_distinct: "distinct (map fst (registryAfter calls))"
  unfolding registryAfter_def by (rule fold_registryCall_distinct) simp

lemma distinct_single_entry:
  assumes "distinct (map fst al)" "map_of al k = Some v"
  shows "filter (\<lambda>entry. fst entry = k) al = [(k, v)]"
  using assms
proof (induction al)
  case Nil
  then show ?case by simp
next
  case (Cons p al)
  show ?case
  proof (cases "fst p = k")
    case True
    with Cons.prems have "p = (k, v)" by (cases p) auto
    moreover have "k \<notin> fst ` set al" using Cons.prems(1) True by auto
    then have "filter (\<lambda>entry. fst entry = k) al = []"
      unfolding filter_empty_conv by (metis imageI)
    ultimately show ?thesis by simp
  next
    case False
    with Cons show ?thesis by (cases p) auto
  qed
qed

section \<open>The claims of the specification\<close>

text \<open>
  Claim C1 (conflict detector). The specification expects that a key registered twice
  under two owners makes \<open>getConflicts\<close> report one entry for that key, listing both
  owners. The detector stores its registrations in a \<open>Map\<close> keyed by the shortcut key,
  so the second \<open>register\<close> replaces the first and every group that \<open>getConflicts\<close>
  builds has one member. After any sequence of calls \<open>getConflicts\<close> reports nothing;
  after two registrations of one key it still reports nothing and only the second
  owner is stored. The last conjunct is the pair of registrations the demo page makes
  before it displays the conflicts.
\<close>

theorem conflicts_never_reported:
  "getConflicts (detectorAfter calls) = []
   \<and> getConflicts (detectorRegister k scope2 owner2
                     (detectorRegister k scope1 owner1 (detectorAfter calls))) = []
   \<and> map_of (detectorRegister k scope2 owner2
               (detectorRegister k scope1 owner1 (detectorAfter calls))) k
       = Some \<lparr>scope = scope2, component = owner2\<rparr>
   \<and> getConflicts (detectorRegister ''ctrl+s'' ''editor'' ''EditorScope''
                     (detectorRegister ''ctrl+s'' ''demo'' ''HotkeysDemo'' [])) = []"
proof -
  have 1: "getConflicts (detectorAfter calls) = []"
    using detectorAfter_distinct by (rule getConflicts_distinct)
  have "detectorRegister k scope2 owner2 (detectorRegister k scope1 owner1 (detectorAfter calls))
          = detectorAfter (calls @ [DRegister k scope1 owner1, DRegister k scope2 owner2])"
    by (simp add: detectorAfter_def)
  then have 2: "getConflicts (detectorRegister k scope2 owner2
                     (detectorRegister k scope1 owner1 (detectorAfter calls))) = []"
    using detectorAfter_distinct by (simp add: getConflicts_distinct)
  have 3: "map_of (detectorRegister k scope2 owner2
               (detectorRegister k scope1 owner1 (detectorAfter calls))) k
       = Some \<lparr>scope = scope2, component = owner2\<rparr>"
    by (simp add: detectorRegister_def update_conv')
  have 4: "getConflicts (detectorRegister ''ctrl+s'' ''editor'' ''EditorScope''
                     (detectorRegister ''ctrl+s'' ''demo'' ''HotkeysDemo'' [])) = []"
    by code_simp
  from 1 2 3 4 show ?thesis by simp
qed

text \<open>
  Claim C2 (chained sequence). Let the active set come from a configuration, and let
  \<open>s\<close> be the chained shortcut with key \<open>a-b\<close> that the matcher finds (the first one,
  should two specs lower-case to the same key). Both keys arrive as \<open>keydown\<close> events
  while the user is not typing. If the \<open>a\<close> keydown does not itself complete an earlier
  chain (as from an empty history) and the \<open>b\<close> keydown comes before the chain delay has
  run out, the first event invokes nothing and the second invokes the handler of \<open>s\<close>
  and nothing else: exactly once. If the \<open>b\<close> keydown comes after the chain delay has
  run out, the debounce reset has emptied the history and the \<open>b\<close> keydown invokes no
  handler.
\<close>

theorem chained_sequence:
  assumes active: "find (\<lambda>s. chained s \<and> key s = a @ ''-'' @ b) (shortcutsOf config macOS) = Some s"
    and ea: "toLowerCase (key ea) = a" "eventType ea = ''keydown''"
    and eb: "toLowerCase (key eb) = b" "eventType eb = ''keydown''"
    and focus: "\<not> isTyping opts fa" "\<not> isTyping opts fb"
  shows "(matchChained (shortcutsOf config macOS) (history (timerExpiry ta st)) a = None
            \<and> tb < ta + chainDelay opts
          \<longrightarrow> fst (run opts (shortcutsOf config macOS) [(ta, fa, ea), (tb, fb, eb)] st)
                = [[], [handler s]])
       \<and> (ta + chainDelay opts < tb
          \<longrightarrow> (\<exists>fired. fst (run opts (shortcutsOf config macOS) [(ta, fa, ea), (tb, fb, eb)] st)
                         = [fired, []]))"
proof -
  from active have s: "s \<in> set (shortcutsOf config macOS)" "chained s" "key s = a @ ''-'' @ b"
    by (auto simp: find_Some_iff)
  then have "regex_test chainedShortcutRegex (a @ ''-'' @ b)"
    using shortcutsOf_chained_valid by metis
  then have ab: "a \<noteq> []" "b \<noteq> []" using chained_regex_ends by blast+
  show ?thesis
  proof (intro conjI impI)
    assume "matchChained (shortcutsOf config macOS) (history (timerExpiry ta st)) a = None
            \<and> tb < ta + chainDelay opts"
    then show "fst (run opts (shortcutsOf config macOS) [(ta, fa, ea), (tb, fb, eb)] st)
                = [[], [handler s]]"
      using within_timeout_fires[OF active ab(1) ea ab(2) eb focus] by blast
  next
    assume "ta + chainDelay opts < tb"
    from after_timeout_silent[OF s ab(1) ea focus(1) eb(1) this]
    show "\<exists>fired. fst (run opts (shortcutsOf config macOS) [(ta, fa, ea), (tb, fb, eb)] st)
                         = [fired, []]"
      unfolding run_two by simp
  qed
qed

text \<open>
  With the default delay of 800: \<open>g\<close> at time 0 and \<open>h\<close> at time 700 invoke \<open>goHome\<close>
  once; \<open>g\<close> at time 0 and \<open>h\<close> at time 900 invoke nothing at \<open>h\<close>.
\<close>

theorem chained_sequence_witness:
  "fst (run defaultOptions (shortcutsOf [(''g-h'', ''goHome'')] False)
          [(0, None, keydown ''G''), (700, None, keydown ''h'')] initialState) = [[], [''goHome'']]
   \<and> (\<exists>fired. fst (run defaultOptions (shortcutsOf [(''g-h'', ''goHome'')] False)
          [(0, None, keydown ''G''), (900, None, keydown ''h'')] initialState) = [fired, []])"
proof -
  let ?s = "\<lparr>key = ''g-h'', ctrlKey = False, metaKey = False, shiftKey = False,
             altKey = False, handler = ''goHome'', chained = True\<rparr>"
  have sh: "shortcutsOf [(''g-h'', ''goHome'')] False = [?s]" by code_simp
  have active: "find (\<lambda>s. chained s \<and> key s = ''g'' @ ''-'' @ ''h'')
                  (shortcutsOf [(''g-h'', ''goHome'')] False) = Some ?s"
    unfolding sh by simp
  have ea: "toLowerCase (key (keydown ''G'')) = ''g''" "eventType (keydown ''G'') = ''keydown''"
    by code_simp+
  have eb: "toLowerCase (key (keydown ''h'')) = ''h''" "eventType (keydown ''h'') = ''keydown''"
    by code_simp+
  have focus: "\<not> isTyping defaultOptions None" by (simp add: isTyping_def)
  have idle: "matchChained (shortcutsOf [(''g-h'', ''goHome'')] False)
                (history (timerExpiry 0 initialState)) ''g'' = None"
    by (simp add: initialState_def timerExpiry_def matchChained_def)
  have t: "(700::nat) < 0 + chainDelay defaultOptions" "0 + chainDelay defaultOptions < (900::nat)"
    by (simp_all add: defaultOptions_def)
  from chained_sequence[OF active ea eb focus focus, where ta = 0 and st = initialState and tb = 700] idle t(1)
  have 1: "fst (run defaultOptions (shortcutsOf [(''g-h'', ''goHome'')] False)
          [(0, None, keydown ''G''), (700, None, keydown ''h'')] initialState) = [[], [''goHome'']]"
    by simp
  from chained_sequence[OF active ea eb focus focus, where ta = 0 and st = initialState and tb = 900] t(2)
  have 2: "\<exists>fired. fst (run defaultOptions (shortcutsOf [(''g-h'', ''goHome'')] False)
          [(0, None, keydown ''G''), (900, None, keydown ''h'')] initialState) = [fired, []]"
    by blast
  from 1 2 show ?thesis by blast
qed

text \<open>
  Claim C3 (bare key after a chain timed out), as amended. With the chained spec
  \<open>g-h\<close> and the bare spec \<open>h\<close> both in the configuration, a keydown \<open>g\<close> while the
  user is not typing, a wait longer than the chain delay and a keydown \<open>h\<close>: the bare
  \<open>h\<close> shortcut matches the event, and
  still the \<open>h\<close> keydown invokes no handler at all, neither that of \<open>g-h\<close> nor that of
  \<open>h\<close>. The combined path is skipped because \<open>h\<close> occurs in the key of the chained
  shortcut \<open>g-h\<close>.
\<close>

theorem bare_key_after_timeout:
  assumes config: "(''g-h'', goHome) \<in> set config" "(''h'', onH) \<in> set config"
    and focus: "\<not> isTyping opts f0"
    and late: "t0 + chainDelay opts < t1"
  shows "matchCombined (shortcutsOf config macOS) (keydown ''h'') \<noteq> None
       \<and> (\<exists>fired. fst (run opts (shortcutsOf config macOS)
                          [(t0, f0, keydown ''g''), (t1, f1, keydown ''h'')] st) = [fired, []])"
proof -
  let ?gh = "\<lparr>key = ''g-h'', ctrlKey = False, metaKey = False, shiftKey = False,
              altKey = False, handler = goHome, chained = True\<rparr>"
  let ?h = "\<lparr>key = ''h'', ctrlKey = False, metaKey = False, shiftKey = False,
              altKey = False, handler = onH, chained = False\<rparr>"
  have low: "toLowerCase ''h'' = ''h''" "toLowerCase ''g'' = ''g''" "toLowerCase ''g-h'' = ''g-h''"
    by code_simp+
  have "regex_test chainedShortcutRegex (toLowerCase ''g-h'')" by code_simp
  then have "parseShortcut ''g-h'' goHome macOS = Some ?gh"
    by (simp add: parseShortcut_hyphen_spec low)
  with config(1) have gh: "?gh \<in> set (shortcutsOf config macOS)"
    unfolding shortcutsOf_member by blast
  have "''h'' \<notin> set modifierTokens" by code_simp
  then have "parseShortcut ''h'' onH macOS = Some ?h"
    using parseShortcut_bare[of "''h''" onH macOS] by (simp add: low)
  with config(2) have h: "?h \<in> set (shortcutsOf config macOS)"
    unfolding shortcutsOf_member by blast
  have "\<exists>x\<in>set (shortcutsOf config macOS). \<not> chained x \<and> key x = ''h'' \<and> \<not> ctrlKey x
           \<and> \<not> metaKey x \<and> \<not> shiftKey x \<and> \<not> altKey x"
    using h by (intro bexI[of _ ?h]) simp_all
  then have 1: "matchCombined (shortcutsOf config macOS) (keydown ''h'') \<noteq> None"
    by (auto simp: matchCombined_def find_None_iff keydown_def low)
  have "fst (dispatchEvent opts (shortcutsOf config macOS) t1 f1 (keydown ''h'')
          (snd (dispatchEvent opts (shortcutsOf config macOS) t0 f0 (keydown ''g'') st))) = []"
    by (rule after_timeout_silent[OF gh _ _ _ _ _ focus _ late, where a = "''g''" and b = "''h''"])
       (simp_all add: keydown_def low)
  then have 2: "\<exists>fired. fst (run opts (shortcutsOf config macOS)
                          [(t0, f0, keydown ''g''), (t1, f1, keydown ''h'')] st) = [fired, []]"
    unfolding run_two by simp
  from 1 2 show ?thesis by simp
qed

theorem bare_key_after_timeout_witness:
  "matchCombined (shortcutsOf [(''g-h'', ''goHome''), (''h'', ''onH'')] False) (keydown ''h'') \<noteq> None
   \<and> (\<exists>fired. fst (run defaultOptions (shortcutsOf [(''g-h'', ''goHome''), (''h'', ''onH'')] False)
                     [(0, None, keydown ''g''), (900, None, keydown ''h'')] initialState) = [fired, []])"
proof -
  have c: "(''g-h'', ''goHome'') \<in> set [(''g-h'', ''goHome''), (''h'', ''onH'')]"
    "(''h'', ''onH'') \<in> set [(''g-h'', ''goHome''), (''h'', ''onH'')]" by simp_all
  have focus: "\<not> isTyping defaultOptions None" by (simp add: isTyping_def)
  have late: "0 + chainDelay defaultOptions < (900::nat)" by (simp add: defaultOptions_def)
  from bare_key_after_timeout[OF c focus late] show ?thesis .
qed

text \<open>
  The claim as the specification words it expects the bare \<open>h\<close> handler to be invoked.
  The run below invokes nothing at either event and leaves \<open>h\<close> in the history.
\<close>

theorem bare_key_after_timeout_counterexample:
  "shortcutsOf [(''g-h'', ''goHome''), (''h'', ''onH'')] False =
     [\<lparr>key = ''g-h'', ctrlKey = False, metaKey = False, shiftKey = False, altKey = False,
       handler = ''goHome'', chained = True\<rparr>,
      \<lparr>key = ''h'', ctrlKey = False, metaKey = False, shiftKey = False, altKey = False,
       handler = ''onH'', chained = False\<rparr>]
   \<and> run defaultOptions (shortcutsOf [(''g-h'', ''goHome''), (''h'', ''onH'')] False)
       [(0, None, keydown ''g''), (900, None, keydown ''h'')] initialState
     = ([[], []], \<lparr>history = [''h''], timer = Some 1700\<rparr>)"
  by code_simp

text \<open>
  Claim C4 (a key of a chain skips the combined path). When the lower-cased key of an
  event occurs in the key of some chained shortcut of the active set, \<open>onEventFired\<close>
  returns without invoking anything and without touching the state, whatever the
  combined matcher would find; every handler the event invokes is then that of a
  chained shortcut.
\<close>

theorem chain_key_skips_combined:
  assumes "s \<in> set shortcuts" "chained s" "str_includes (key s) (toLowerCase (key e))"
  shows "onEventFired opts shortcuts activeElement e st = ([], st)
       \<and> (\<forall>h\<in>set (fst (dispatchEvent opts shortcuts now activeElement e st)).
            \<exists>c\<in>set shortcuts. chained c \<and> handler c = h)"
proof -
  have p: "list_ex (\<lambda>s. chained s \<and> str_includes (key s) (toLowerCase (key e))) shortcuts"
    using assms unfolding list_ex_iff by blast
  have "\<exists>c\<in>set shortcuts. chained c \<and> handler c = h"
    if "h \<in> set (fst (dispatchEvent opts shortcuts now activeElement e st))" for h
    using that onKeyDown_fired_chained[of h opts shortcuts activeElement now e "timerExpiry now st"]
    unfolding dispatchEvent_participating[OF p] by (auto split: if_splits)
  then show ?thesis using onEventFired_participating[OF p] by blast
qed

text \<open>
  The bare \<open>h\<close> shortcut matches a keydown \<open>h\<close> exactly, and is not invoked, because of \<open>g-h\<close>.
\<close>

theorem chain_key_skips_combined_witness:
  "matchCombined (shortcutsOf [(''g-h'', ''goHome''), (''h'', ''onH'')] False) (keydown ''h'') = Some ''onH''
   \<and> onEventFired defaultOptions (shortcutsOf [(''g-h'', ''goHome''), (''h'', ''onH'')] False) None
       (keydown ''h'') initialState = ([], initialState)
   \<and> fst (dispatchEvent defaultOptions (shortcutsOf [(''g-h'', ''goHome''), (''h'', ''onH'')] False) 0 None
       (keydown ''h'') initialState) = []"
proof -
  let ?gh = "\<lparr>key = ''g-h'', ctrlKey = False, metaKey = False, shiftKey = False,
              altKey = False, handler = ''goHome'', chained = True\<rparr>"
  have 1: "?gh \<in> set (shortcutsOf [(''g-h'', ''goHome''), (''h'', ''onH'')] False)" by code_simp
  have 2: "chained ?gh" by simp
  have 3: "str_includes (key ?gh) (toLowerCase (key (keydown ''h'')))" by code_simp
  have 4: "matchCombined (shortcutsOf [(''g-h'', ''goHome''), (''h'', ''onH'')] False) (keydown ''h'') = Some ''onH''"
    by code_simp
  have 5: "fst (dispatchEvent defaultOptions (shortcutsOf [(''g-h'', ''goHome''), (''h'', ''onH'')] False) 0 None
       (keydown ''h'') initialState) = []" by code_simp
  from chain_key_skips_combined[OF 1 2 3, of defaultOptions None initialState 0] 4 5
  show ?thesis by simp
qed

text \<open>
  Claim C5 (combined match). When \<open>matchCombined\<close> returns a handler, it is that of a
  shortcut of the active set that is not chained, whose key is the lower-cased key of
  the event and whose four modifier flags all equal those of the event. When this
  happens for a \<open>keydown\<close> event while the user is not typing and the key occurs in no
  chained shortcut, the event invokes that handler once and nothing else.
\<close>

theorem combined_match_exact:
  assumes "matchCombined shortcuts e = Some h"
  shows "(\<exists>s\<in>set shortcuts. handler s = h \<and> \<not> chained s \<and> key s = toLowerCase (key e)
            \<and> ctrlKey s = ctrlKey e \<and> metaKey s = metaKey e
            \<and> shiftKey s = shiftKey e \<and> altKey s = altKey e)
       \<and> (\<not> isTyping opts activeElement \<and> eventType e = ''keydown''
            \<and> \<not> list_ex (\<lambda>s. chained s \<and> str_includes (key s) (toLowerCase (key e))) shortcuts
          \<longrightarrow> fst (dispatchEvent opts shortcuts now activeElement e st) = [h])"
proof (intro conjI impI)
  from assms show "\<exists>s\<in>set shortcuts. handler s = h \<and> \<not> chained s \<and> key s = toLowerCase (key e)
            \<and> ctrlKey s = ctrlKey e \<and> metaKey s = metaKey e
            \<and> shiftKey s = shiftKey e \<and> altKey s = altKey e"
    unfolding matchCombined_def by (auto simp: find_Some_iff)
next
  assume a: "\<not> isTyping opts activeElement \<and> eventType e = ''keydown''
            \<and> \<not> list_ex (\<lambda>s. chained s \<and> str_includes (key s) (toLowerCase (key e))) shortcuts"
  then have "onEventFired opts shortcuts activeElement e (timerExpiry now st)
               = ([h], resetHistory (timerExpiry now st))"
    using assms by (simp add: onEventFired_def)
  then show "fst (dispatchEvent opts shortcuts now activeElement e st) = [h]"
    using a by (simp add: dispatchEvent_def onKeyDown_not_participating Let_def)
qed

text \<open>
  \<open>ctrl_s\<close> fires on Ctrl+S, once, and does not match Ctrl+Shift+S.
\<close>

theorem combined_match_exact_witness:
  "matchCombined (shortcutsOf [(''ctrl_s'', ''save'')] False)
     ((keydown ''S'')\<lparr>ctrlKey := True\<rparr>) = Some ''save''
   \<and> fst (dispatchEvent defaultOptions (shortcutsOf [(''ctrl_s'', ''save'')] False) 0 None
       ((keydown ''S'')\<lparr>ctrlKey := True\<rparr>) initialState) = [''save'']
   \<and> matchCombined (shortcutsOf [(''ctrl_s'', ''save'')] False)
       ((keydown ''S'')\<lparr>ctrlKey := True, shiftKey := True\<rparr>) = None"
proof -
  have m: "matchCombined (shortcutsOf [(''ctrl_s'', ''save'')] False)
     ((keydown ''S'')\<lparr>ctrlKey := True\<rparr>) = Some ''save''" by code_simp
  have g: "\<not> isTyping defaultOptions None \<and> eventType ((keydown ''S'')\<lparr>ctrlKey := True\<rparr>) = ''keydown''
     \<and> \<not> list_ex (\<lambda>s. chained s \<and> str_includes (key s)
            (toLowerCase (key ((keydown ''S'')\<lparr>ctrlKey := True\<rparr>))))
          (shortcutsOf [(''ctrl_s'', ''save'')] False)" by code_simp
  have n: "matchCombined (shortcutsOf [(''ctrl_s'', ''save'')] False)
       ((keydown ''S'')\<lparr>ctrlKey := True, shiftKey := True\<rparr>) = None" by code_simp
  from combined_match_exact[OF m, of defaultOptions None 0 initialState] g m n
  show ?thesis by blast
qed

text \<open>
  Claim C6 (bare key), as amended. For a spec with neither a hyphen nor an underscore,
  the parser returns a shortcut that is not chained, has all four modifier flags false
  and has the whole lower-cased spec as its key, if and only if the lower-cased spec is
  not one of the modifier tokens \<open>meta\<close>, \<open>command\<close>, \<open>ctrl\<close>, \<open>shift\<close>, \<open>alt\<close>, \<open>option\<close>.
\<close>

theorem bare_key_iff:
  assumes "CHR ''-'' \<notin> set spec" "CHR ''_'' \<notin> set spec"
  shows "parseShortcut spec h macOS =
           Some \<lparr>key = toLowerCase spec, ctrlKey = False, metaKey = False, shiftKey = False,
                 altKey = False, handler = h, chained = False\<rparr>
         \<longleftrightarrow> toLowerCase spec \<notin> set modifierTokens"
  using assms by (rule parseShortcut_bare)

theorem bare_key_witness:
  "parseShortcut ''Escape'' () False =
     Some \<lparr>key = ''escape'', ctrlKey = False, metaKey = False, shiftKey = False,
           altKey = False, handler = (), chained = False\<rparr>"
proof -
  have 1: "CHR ''-'' \<notin> set ''Escape''" "CHR ''_'' \<notin> set ''Escape''" by simp_all
  have 2: "toLowerCase ''Escape'' = ''escape''" by code_simp
  have 3: "''escape'' \<notin> set modifierTokens" by code_simp
  from bare_key_iff[OF 1, of "()" False] 2 3 show ?thesis by simp
qed

text \<open>
  The spec \<open>ctrl\<close> has no separator; it parses to the empty key with \<open>ctrlKey\<close> set.
\<close>

theorem bare_key_counterexample:
  "CHR ''-'' \<notin> set ''ctrl'' \<and> CHR ''_'' \<notin> set ''ctrl''
   \<and> parseShortcut ''ctrl'' () True =
       Some \<lparr>key = [], ctrlKey = True, metaKey = False, shiftKey = False, altKey = False,
             handler = (), chained = False\<rparr>
   \<and> parseShortcut ''ctrl'' () True \<noteq>
       Some \<lparr>key = toLowerCase ''ctrl'', ctrlKey = False, metaKey = False, shiftKey = False,
             altKey = False, handler = (), chained = False\<rparr>"
  by code_simp

text \<open>
  Claim C7 (hyphen specs), as amended. For a spec with a hyphen and no underscore, the
  parser returns a shortcut if and only if the lower-cased spec begins with one or more
  characters that are not hyphens, ends with one or more characters that are not
  hyphens, and has a hyphen between the two runs with no line terminator among the
  characters that separate it from them. Every spec of exactly two non-empty
  hyphen-free segments is of that shape and is accepted; so are specs with more
  segments or with empty inner segments. A spec that is rejected adds nothing to the
  active set.
\<close>

theorem hyphen_spec_accepted_iff:
  assumes "CHR ''-'' \<in> set spec" "CHR ''_'' \<notin> set spec"
  shows "(parseShortcut spec h macOS \<noteq> None \<longleftrightarrow>
            (\<exists>x y z w. toLowerCase spec = x @ y @ ''-'' @ z @ w \<and> x \<noteq> [] \<and> CHR ''-'' \<notin> set x
               \<and> w \<noteq> [] \<and> CHR ''-'' \<notin> set w \<and> (\<forall>c\<in>set (y @ z). \<not> lineTerminator c)))
       \<and> (twoSegments (toLowerCase spec) \<longrightarrow> parseShortcut spec h macOS \<noteq> None)
       \<and> (parseShortcut spec h macOS = None \<longrightarrow>
            shortcutsOf (before @ (spec, h) # after) macOS = shortcutsOf (before @ after) macOS)"
proof (intro conjI impI)
  show "parseShortcut spec h macOS \<noteq> None \<longleftrightarrow>
            (\<exists>x y z w. toLowerCase spec = x @ y @ ''-'' @ z @ w \<and> x \<noteq> [] \<and> CHR ''-'' \<notin> set x
               \<and> w \<noteq> [] \<and> CHR ''-'' \<notin> set w \<and> (\<forall>c\<in>set (y @ z). \<not> lineTerminator c))"
    unfolding parseShortcut_hyphen_spec[OF assms] chainedShortcutRegex_shape[symmetric] by simp
next
  assume "twoSegments (toLowerCase spec)"
  then obtain a b where ab: "toLowerCase spec = a @ ''-'' @ b" "a \<noteq> []" "b \<noteq> []"
      "CHR ''-'' \<notin> set a" "CHR ''-'' \<notin> set b"
    using twoSegments_shape by blast
  then have "toLowerCase spec = a @ [] @ ''-'' @ [] @ b \<and> a \<noteq> [] \<and> CHR ''-'' \<notin> set a
        \<and> b \<noteq> [] \<and> CHR ''-'' \<notin> set b \<and> (\<forall>c\<in>set ([] @ []). \<not> lineTerminator c)"
    by simp
  then have "regex_test chainedShortcutRegex (toLowerCase spec)"
    unfolding chainedShortcutRegex_shape by blast
  then show "parseShortcut spec h macOS \<noteq> None"
    by (simp add: parseShortcut_hyphen_spec[OF assms])
next
  assume "parseShortcut spec h macOS = None"
  then show "shortcutsOf (before @ (spec, h) # after) macOS = shortcutsOf (before @ after) macOS"
    by (simp add: shortcutsOf_append shortcutsOf_Cons)
qed

theorem hyphen_spec_witness:
  "parseShortcut ''g-h'' () True \<noteq> None \<and> parseShortcut ''g-'' () True = None
   \<and> shortcutsOf [(''x'', ()), (''g-'', ()), (''y'', ())] True = shortcutsOf [(''x'', ()), (''y'', ())] True"
proof -
  have 1: "CHR ''-'' \<in> set ''g-h''" "CHR ''_'' \<notin> set ''g-h''" "twoSegments (toLowerCase ''g-h'')"
    by code_simp+
  have 2: "CHR ''-'' \<in> set ''g-''" "CHR ''_'' \<notin> set ''g-''" by simp_all
  have 3: "parseShortcut ''g-'' () True = None" by code_simp
  from hyphen_spec_accepted_iff[OF 1(1,2), of "()" True] 1(3)
  have a: "parseShortcut ''g-h'' () True \<noteq> None" by blast
  from hyphen_spec_accepted_iff[OF 2, of "()" True "[(''x'', ())]" "[(''y'', ())]"] 3
  have b: "shortcutsOf [(''x'', ()), (''g-'', ()), (''y'', ())] True = shortcutsOf [(''x'', ()), (''y'', ())] True"
    by simp
  from a b 3 show ?thesis by simp
qed

text \<open>
  \<open>a-b-c\<close> has three segments and is accepted into the active set.
\<close>

theorem hyphen_spec_counterexample:
  "CHR ''-'' \<in> set ''a-b-c'' \<and> CHR ''_'' \<notin> set ''a-b-c''
   \<and> \<not> twoSegments (toLowerCase ''a-b-c'')
   \<and> parseShortcut ''a-b-c'' () True \<noteq> None
   \<and> shortcutsOf [(''a-b-c'', ())] True \<noteq> []"
  by code_simp

text \<open>
  Claim C8 (platform normalization). Let \<open>b\<close> be the base object the parser builds from
  the lower-cased spec. Whenever the parser returns a shortcut, its key, \<open>shiftKey\<close> and
  \<open>altKey\<close> are those of \<open>b\<close>; if the platform flag is false and \<open>b\<close> has \<open>metaKey\<close> set
  and \<open>ctrlKey\<close> clear, the shortcut has \<open>metaKey\<close> clear and \<open>ctrlKey\<close> set; in every
  other case \<open>metaKey\<close> and \<open>ctrlKey\<close> are those of \<open>b\<close>.
\<close>

theorem platform_normalization:
  assumes "parseShortcut spec h macOS = Some s"
  shows "let k = toLowerCase spec;
             b = parseBase k (CHR ''-'' \<in> set k \<and> CHR ''_'' \<notin> set k)
         in key s = key b \<and> shiftKey s = shiftKey b \<and> altKey s = altKey b
            \<and> (if \<not> macOS \<and> metaKey b \<and> \<not> ctrlKey b
               then metaKey s = False \<and> ctrlKey s = True
               else metaKey s = metaKey b \<and> ctrlKey s = ctrlKey b)"
  using assms
  by (auto simp: parseShortcut_def Let_def str_includes_char split: if_splits)

text \<open>
  \<open>meta_k\<close> on a platform that is not macOS becomes Ctrl+K.
\<close>

theorem platform_normalization_witness:
  "parseShortcut ''meta_k'' () False =
     Some \<lparr>key = ''k'', ctrlKey = True, metaKey = False, shiftKey = False, altKey = False,
           handler = (), chained = False\<rparr>
   \<and> metaKey (parseBase ''meta_k'' False) \<and> \<not> ctrlKey (parseBase ''meta_k'' False)"
proof -
  have p: "parseShortcut ''meta_k'' () False =
     Some \<lparr>key = ''k'', ctrlKey = True, metaKey = False, shiftKey = False, altKey = False,
           handler = (), chained = False\<rparr>" by code_simp
  have b: "metaKey (parseBase ''meta_k'' False) \<and> \<not> ctrlKey (parseBase ''meta_k'' False)"
    by code_simp
  from platform_normalization[OF p] b p show ?thesis by simp
qed

text \<open>
  Claim C9 (typing guard). When \<open>disableOnInputs\<close> is set and the focused element is an
  \<open>input\<close>, a \<open>textarea\<close> or content-editable, the guard reports typing and neither
  listener invokes a handler, for any event, any active set and any state; a run of
  events that all arrive while the guard reports typing invokes nothing. When
  \<open>disableOnInputs\<close> is clear the guard reports not typing for every focus target.
\<close>

theorem typing_guard:
  "(disableOnInputs opts
      \<and> (toLowerCase (tagName el) = ''input'' \<or> toLowerCase (tagName el) = ''textarea''
         \<or> isContentEditable el)
    \<longrightarrow> isTyping opts (Some el)
        \<and> fst (onEventFired opts shortcuts (Some el) e st) = []
        \<and> fst (onKeyDown opts shortcuts (Some el) now e st) = []
        \<and> fst (dispatchEvent opts shortcuts now (Some el) e st) = [])
   \<and> ((\<forall>(now, activeElement, e)\<in>set evs. isTyping opts activeElement)
        \<longrightarrow> fst (run opts shortcuts evs st) = replicate (length evs) [])
   \<and> (\<not> disableOnInputs opts \<longrightarrow> \<not> isTyping opts activeElement)"
proof (intro conjI impI)
  assume a: "disableOnInputs opts
      \<and> (toLowerCase (tagName el) = ''input'' \<or> toLowerCase (tagName el) = ''textarea''
         \<or> isContentEditable el)"
  then show t: "isTyping opts (Some el)" by (auto simp: isTyping_def)
  show "fst (onEventFired opts shortcuts (Some el) e st) = []"
    by (simp add: onEventFired_typing[OF t])
  show "fst (onKeyDown opts shortcuts (Some el) now e st) = []"
    by (simp add: onKeyDown_typing[OF t])
  show "fst (dispatchEvent opts shortcuts now (Some el) e st) = []"
    by (simp add: dispatchEvent_typing[OF t])
next
  assume "\<forall>(now, activeElement, e)\<in>set evs. isTyping opts activeElement"
  then show "fst (run opts shortcuts evs st) = replicate (length evs) []" by (rule run_typing)
next
  assume "\<not> disableOnInputs opts"
  then show "\<not> isTyping opts activeElement" by (simp add: isTyping_def)
qed

text \<open>
  \<open>escape\<close> is not invoked while an \<open>INPUT\<close> element has the focus, and is invoked
  when nothing has.
\<close>

theorem typing_guard_witness:
  "fst (dispatchEvent defaultOptions (shortcutsOf [(''escape'', ''close'')] False) 0
          (Some \<lparr>tagName = ''INPUT'', isContentEditable = False\<rparr>) (keydown ''Escape'') initialState) = []
   \<and> fst (run defaultOptions (shortcutsOf [(''escape'', ''close'')] False)
          [(0, Some \<lparr>tagName = ''INPUT'', isContentEditable = False\<rparr>, keydown ''Escape'')] initialState) = [[]]
   \<and> fst (dispatchEvent defaultOptions (shortcutsOf [(''escape'', ''close'')] False) 0
          None (keydown ''Escape'') initialState) = [''close'']
   \<and> \<not> isTyping (defaultOptions\<lparr>disableOnInputs := False\<rparr>)
          (Some \<lparr>tagName = ''INPUT'', isContentEditable = False\<rparr>)"
proof -
  let ?el = "\<lparr>tagName = ''INPUT'', isContentEditable = False\<rparr>"
  have low: "toLowerCase ''INPUT'' = ''input''" by code_simp
  have 1: "disableOnInputs defaultOptions \<and> (toLowerCase (tagName ?el) = ''input''
         \<or> toLowerCase (tagName ?el) = ''textarea'' \<or> isContentEditable ?el)" by code_simp
  have 2: "\<forall>(now, activeElement, e)\<in>set [(0::nat, Some ?el, keydown ''Escape'')].
             isTyping defaultOptions activeElement" by code_simp
  have 3: "\<not> disableOnInputs (defaultOptions\<lparr>disableOnInputs := False\<rparr>)" by simp
  have 4: "fst (dispatchEvent defaultOptions (shortcutsOf [(''escape'', ''close'')] False) 0
          None (keydown ''Escape'') initialState) = [''close'']" by code_simp
  from typing_guard[where opts = defaultOptions and el = ?el
      and shortcuts = "shortcutsOf [(''escape'', ''close'')] False"
      and e = "keydown ''Escape''" and st = initialState and now = 0
      and evs = "[(0, Some ?el, keydown ''Escape'')]"] 1 2 4 low
  have a: "fst (dispatchEvent defaultOptions (shortcutsOf [(''escape'', ''close'')] False) 0
          (Some ?el) (keydown ''Escape'') initialState) = []
     \<and> fst (run defaultOptions (shortcutsOf [(''escape'', ''close'')] False)
          [(0, Some ?el, keydown ''Escape'')] initialState) = [[]]
     \<and> fst (dispatchEvent defaultOptions (shortcutsOf [(''escape'', ''close'')] False) 0
          None (keydown ''Escape'') initialState) = [''close'']" by simp
  from typing_guard[where opts = "defaultOptions\<lparr>disableOnInputs := False\<rparr>"
      and activeElement = "Some ?el"] 3
  have b: "\<not> isTyping (defaultOptions\<lparr>disableOnInputs := False\<rparr>) (Some ?el)" by blast
  from a b show ?thesis by blast
qed

text \<open>
  Claim C10 (registry). After any sequence of \<open>register\<close> and \<open>unregister\<close> calls the
  keys of the registry are distinct: one record per shortcut string. Registering the
  same shortcut a second time warns of the conflict and replaces the record:
  \<open>getRegistration\<close> returns the second registrant's component, handler and location,
  and the second record is the only entry stored for that shortcut.
\<close>

theorem registry_one_record_per_shortcut:
  "(let registered = registryAfter calls;
        first = \<lparr>reg_component = component1, reg_handler = h1, reg_location = location1\<rparr>;
        second = \<lparr>reg_component = component2, reg_handler = h2, reg_location = location2\<rparr>;
        registered1 = snd (register shortcut h1 component1 location1 registered);
        registered2 = snd (register shortcut h2 component2 location2 registered1)
    in distinct (getRegisteredShortcuts registered)
       \<and> getRegistration shortcut registered1 = Some first
       \<and> fst (register shortcut h2 component2 location2 registered1)
           = [ShortcutConflict shortcut component1 location1 component2 location2]
       \<and> distinct (getRegisteredShortcuts registered2)
       \<and> getRegistration shortcut registered2 = Some second
       \<and> filter (\<lambda>entry. fst entry = shortcut) registered2 = [(shortcut, second)])"
proof -
  let ?first = "\<lparr>reg_component = component1, reg_handler = h1, reg_location = location1\<rparr>"
  let ?second = "\<lparr>reg_component = component2, reg_handler = h2, reg_location = location2\<rparr>"
  let ?r1 = "snd (register shortcut h1 component1 location1 (registryAfter calls))"
  let ?r2 = "snd (register shortcut h2 component2 location2 ?r1)"
  have d0: "distinct (map fst (registryAfter calls))" by (rule registryAfter_distinct)
  have r2: "?r2 = registryAfter (calls @ [Register shortcut h1 component1 location1,
                                          Register shortcut h2 component2 location2])"
    by (simp add: registryAfter_def)
  have d2: "distinct (map fst ?r2)" unfolding r2 by (rule registryAfter_distinct)
  have g1: "map_of ?r1 shortcut = Some ?first" by (simp add: register_def update_conv')
  have g2: "map_of ?r2 shortcut = Some ?second" by (simp add: register_def update_conv')
  have w: "fst (register shortcut h2 component2 location2 ?r1)
             = [ShortcutConflict shortcut component1 location1 component2 location2]"
    using g1 by (simp add: register_def[of shortcut h2])
  have f: "filter (\<lambda>entry. fst entry = shortcut) ?r2 = [(shortcut, ?second)]"
    using d2 g2 by (rule distinct_single_entry)
  from d0 d2 g1 g2 w f show ?thesis
    by (simp add: Let_def getRegisteredShortcuts_def getRegistration_def)
qed

end
